theory Spec2Isabelle
  imports Main "HOL-Library.AList" "HOL-Library.Sublist"
begin

section \<open>Documents\<close>

text \<open>
  The value handled by \<^verbatim>\<open>filterTree\<close> in \<^verbatim>\<open>src/App.tsx\<close> is whatever
  \<^verbatim>\<open>JSON.parse\<close> produced, typed \<^verbatim>\<open>any\<close>.  The embedding keeps one
  constructor per case the source distinguishes with \<^verbatim>\<open>typeof\<close> and
  \<^verbatim>\<open>Array.isArray\<close>:

  \<^item> an object is the list of its own enumerable properties in the order
    \<^verbatim>\<open>for (const key in obj)\<close> visits them (integer-like keys ascending, then
    the other keys as inserted; entries written into a fresh object in that
    order are enumerated in that order again); its keys are pairwise distinct
    (predicate \<open>wellFormed\<close> below);
  \<^item> an array is the list of its slots, \<open>None\<close> being a hole: the arrays that
    \<^verbatim>\<open>filterTree\<close> builds with \<^verbatim>\<open>result[key] = ...\<close> are sparse;
  \<^item> the payload of a number is never inspected by the filter; it is an
    integer here;
  \<^item> strings are lists of 8-bit characters, and case folding is the ASCII one.

  Only own properties are modelled.  Prototypes are not part of the state; the
  one place where the source touches a prototype is the assignment
  \<^verbatim>\<open>result["__proto__"] = ...\<close>, see \<open>setProp\<close>.
\<close>

datatype json =
    JString string
  | JNumber int
  | JBool bool
  | JNull
  | JUndefined
  | JObject "(string \<times> json) list"
  | JArray "json option list"

subsection \<open>Strings\<close>

text \<open>\<^verbatim>\<open>String.prototype.toLowerCase\<close>, on ASCII letters.\<close>

definition lowerChar :: "char \<Rightarrow> char" where
  "lowerChar c =
     (let n = (of_char c :: nat) in if 65 \<le> n \<and> n \<le> 90 then char_of (n + 32) else c)"

definition toLowerCase :: "string \<Rightarrow> string" where
  "toLowerCase s = map lowerChar s"

text \<open>\<^verbatim>\<open>s.startsWith(t)\<close> and \<^verbatim>\<open>s.includes(t)\<close>.\<close>

fun startsWith :: "string \<Rightarrow> string \<Rightarrow> bool" where
  "startsWith s [] = True"
| "startsWith [] (c # t) = False"
| "startsWith (a # s) (c # t) = (a = c \<and> startsWith s t)"

fun includesStr :: "string \<Rightarrow> string \<Rightarrow> bool" where
  "includesStr [] t = (t = [])"
| "includesStr (a # s) t = (startsWith (a # s) t \<or> includesStr s t)"

text \<open>\<^verbatim>\<open>String.prototype.trim\<close>, on the ASCII white space characters
  (tab, line feed, vertical tab, form feed, carriage return, space).\<close>

definition isSpace :: "char \<Rightarrow> bool" where
  "isSpace c = (let n = (of_char c :: nat) in (9 \<le> n \<and> n \<le> 13) \<or> n = 32)"

definition trim :: "string \<Rightarrow> string" where
  "trim s = rev (dropWhile isSpace (rev (dropWhile isSpace s)))"

text \<open>\<^verbatim>\<open>xs.join('.')\<close> on an array of strings.\<close>

fun join :: "string list \<Rightarrow> string" where
  "join [] = []"
| "join [x] = x"
| "join (x # y # zs) = x @ ''.'' @ join (y # zs)"

text \<open>The decimal string of an array index (\<^verbatim>\<open>String(i)\<close>), which is the key
  that \<^verbatim>\<open>for ... in\<close> yields for slot \<open>i\<close> of an array.\<close>

definition digitChar :: "nat \<Rightarrow> char" where
  "digitChar d = char_of (48 + d)"

fun showNat :: "nat \<Rightarrow> string" where
  "showNat n = (if n < 10 then [digitChar n] else showNat (n div 10) @ [digitChar (n mod 10)])"

declare showNat.simps [simp del]

definition isDigit :: "char \<Rightarrow> bool" where
  "isDigit c = (let n = (of_char c :: nat) in 48 \<le> n \<and> n \<le> 57)"

definition parseNat :: "string \<Rightarrow> nat" where
  "parseNat s = foldl (\<lambda>a c. 10 * a + (of_char c - 48)) 0 s"

text \<open>A property key is an array index when it is the canonical decimal string
  of a number (ECMAScript: \<^verbatim>\<open>ToString(ToUint32(key)) === key\<close>; the bound
  \<open>2^32 - 1\<close> on the length of an array is not modelled).\<close>

definition arrayIndex :: "string \<Rightarrow> nat option" where
  "arrayIndex key =
     (if key \<noteq> [] \<and> list_all isDigit key \<and> showNat (parseNat key) = key
      then Some (parseNat key) else None)"

subsection \<open>Properties of a value\<close>

text \<open>The pairs \<^verbatim>\<open>(key, obj[key])\<close> that \<^verbatim>\<open>for (const key in obj)\<close> visits: the
  entries of an object in their order, the filled slots of an array by ascending
  index with the index as a decimal string.\<close>

fun arrayEntries :: "nat \<Rightarrow> json option list \<Rightarrow> (string \<times> json) list" where
  "arrayEntries i [] = []"
| "arrayEntries i (None # xs) = arrayEntries (Suc i) xs"
| "arrayEntries i (Some v # xs) = (showNat i, v) # arrayEntries (Suc i) xs"

fun ownEntries :: "json \<Rightarrow> (string \<times> json) list" where
  "ownEntries (JObject kvs) = kvs"
| "ownEntries (JArray xs) = arrayEntries 0 xs"
| "ownEntries v = []"

text \<open>Slot \<open>i\<close> of an array: \<open>None\<close> for a hole and beyond the length.\<close>

definition elemAt :: "json option list \<Rightarrow> nat \<Rightarrow> json option" where
  "elemAt xs i = (if i < length xs then xs ! i else None)"

text \<open>The own property \<^verbatim>\<open>obj[key]\<close> of a container, \<open>None\<close> when there is none.\<close>

fun getProp :: "json \<Rightarrow> string \<Rightarrow> json option" where
  "getProp (JObject kvs) key = map_of kvs key"
| "getProp (JArray xs) key = (case arrayIndex key of None \<Rightarrow> None | Some i \<Rightarrow> elemAt xs i)"
| "getProp v key = None"

text \<open>The value at a key-path, root first.\<close>

fun reach :: "json \<Rightarrow> string list \<Rightarrow> json option" where
  "reach v [] = Some v"
| "reach v (k # ks) = (case getProp v k of None \<Rightarrow> None | Some c \<Rightarrow> reach c ks)"

text \<open>\<^verbatim>\<open>xs[i] = v\<close> on an array: writing past the end extends the array and
  leaves holes in between.\<close>

definition arraySet :: "json option list \<Rightarrow> nat \<Rightarrow> json \<Rightarrow> json option list" where
  "arraySet xs i v =
     (if i < length xs then xs[i := Some v]
      else xs @ replicate (i - length xs) None @ [Some v])"

text \<open>
  \<^verbatim>\<open>result[key] = v\<close>, on the fresh \<^verbatim>\<open>{}\<close> or \<^verbatim>\<open>[]\<close> that \<^verbatim>\<open>filterTree\<close> fills.

  On an ordinary object the assignment defines the own property \<open>key\<close> (a new
  key goes last in the enumeration order, an existing one keeps its place), for
  every key but \<^verbatim>\<open>"__proto__"\<close>: \<^verbatim>\<open>{}\<close> has no own property of that name, so the
  assignment reaches the accessor \<^verbatim>\<open>Object.prototype.__proto__\<close>, whose setter
  changes the prototype of \<^verbatim>\<open>result\<close> (or does nothing, for a value that is
  neither an object nor null) and defines no own property.  (\<^verbatim>\<open>JSON.parse\<close>
  does create an own property \<^verbatim>\<open>"__proto__"\<close>, so such a key can be visited.)

  On an array the keys that the loop produces are indices.  A key that is not
  an index would define a named property, which the embedding does not
  represent.
\<close>

fun setProp :: "json \<Rightarrow> string \<Rightarrow> json \<Rightarrow> json" where
  "setProp (JObject kvs) key v =
     (if key = ''__proto__'' then JObject kvs else JObject (AList.update key v kvs))"
| "setProp (JArray xs) key v =
     (case arrayIndex key of None \<Rightarrow> JArray xs | Some i \<Rightarrow> JArray (arraySet xs i v))"
| "setProp r key v = r"

text \<open>\<^verbatim>\<open>x != null\<close> (loose inequality: false for \<^verbatim>\<open>null\<close> and \<^verbatim>\<open>undefined\<close> only)
  and the truthiness that \<^verbatim>\<open>!x\<close> and \<^verbatim>\<open>x || y\<close> test.\<close>

fun looseNotNull :: "json \<Rightarrow> bool" where
  "looseNotNull JNull = False"
| "looseNotNull JUndefined = False"
| "looseNotNull v = True"

fun truthy :: "json \<Rightarrow> bool" where
  "truthy (JString s) = (s \<noteq> [])"
| "truthy (JNumber n) = (n \<noteq> 0)"
| "truthy (JBool b) = b"
| "truthy JNull = False"
| "truthy JUndefined = False"
| "truthy (JObject kvs) = True"
| "truthy (JArray xs) = True"

section \<open>The filter\<close>

lemma size_arrayEntries:
  "size_list (\<lambda>e. size (snd e)) (arrayEntries i xs) \<le> size_list (size_option size) xs"
proof (induction i xs rule: arrayEntries.induct)
  case (1 i)
  show ?case by simp
next
  case (2 i xs)
  then show ?case by simp
next
  case (3 i v xs)
  then show ?case by simp
qed

lemma size_objectEntries:
  "size_list (\<lambda>e. size (snd e)) kvs \<le> size_list (size_prod (\<lambda>_. 0) size) kvs"
  by (induction kvs) auto

text \<open>
  \<^verbatim>\<open>filterTree(obj, term, path, matches)\<close>.  The source pushes onto the shared
  array \<^verbatim>\<open>matches\<close>; here the array is passed in and returned.  \<open>forIn\<close> is the
  \<^verbatim>\<open>for (const key in obj)\<close> loop over the entries still to visit, carrying
  \<^verbatim>\<open>result\<close>, \<^verbatim>\<open>hasMatchHere\<close> and \<^verbatim>\<open>matches\<close>.
\<close>

function filterTree :: "json \<Rightarrow> string \<Rightarrow> string list \<Rightarrow> string list list \<Rightarrow> json \<times> string list list"
  and forIn :: "(string \<times> json) list \<Rightarrow> string \<Rightarrow> string list \<Rightarrow> json \<times> bool \<times> string list list
                  \<Rightarrow> json \<times> bool \<times> string list list"
where
  "filterTree (JString s) term path matches =
     (if includesStr (toLowerCase s) term then (JString s, matches @ [path]) else (JNull, matches))"
| "filterTree (JNumber n) term path matches = (JNull, matches)"
| "filterTree (JBool b) term path matches = (JNull, matches)"
| "filterTree JNull term path matches = (JNull, matches)"
| "filterTree JUndefined term path matches = (JNull, matches)"
| "filterTree (JObject kvs) term path matches =
     (case forIn (ownEntries (JObject kvs)) term path (JObject [], False, matches) of
        (result, hasMatchHere, matches') \<Rightarrow> (if hasMatchHere then result else JNull, matches'))"
| "filterTree (JArray xs) term path matches =
     (case forIn (ownEntries (JArray xs)) term path (JArray [], False, matches) of
        (result, hasMatchHere, matches') \<Rightarrow> (if hasMatchHere then result else JNull, matches'))"
| "forIn [] term path st = st"
| "forIn ((key, val) # rest) term path (result, hasMatchHere, matches) =
     (let newPath = path @ [key];
          keyMatches = includesStr (toLowerCase key) term
      in case filterTree val term newPath matches of
           (filtered, matches1) \<Rightarrow>
             if keyMatches \<or> looseNotNull filtered
             then forIn rest term path
                    (setProp result key (if keyMatches then val else filtered), True,
                     if keyMatches then matches1 @ [newPath] else matches1)
             else forIn rest term path (result, hasMatchHere, matches1))"
  by pat_completeness auto

termination
proof (relation "measure (\<lambda>x. case x of
          Inl (obj, _) \<Rightarrow> 2 * size obj
        | Inr (es, _) \<Rightarrow> 2 * size_list (\<lambda>e. size (snd e)) es + 1)")
  show "wf (measure (\<lambda>x. case x of
          Inl (obj, _) \<Rightarrow> 2 * size obj
        | Inr (es, _) \<Rightarrow> 2 * size_list (\<lambda>e. size (snd e)) es + 1))"
    by simp
next
  fix kvs :: "(string \<times> json) list" and t :: string and p :: "string list" and ms :: "string list list"
  show "(Inr (ownEntries (JObject kvs), t, p, JObject [], False, ms),
         Inl (JObject kvs, t, p, ms))
        \<in> measure (\<lambda>x. case x of
          Inl (obj, _) \<Rightarrow> 2 * size obj
        | Inr (es, _) \<Rightarrow> 2 * size_list (\<lambda>e. size (snd e)) es + 1)"
    using size_objectEntries [of kvs] by simp
next
  fix xs :: "json option list" and t :: string and p :: "string list" and ms :: "string list list"
  show "(Inr (ownEntries (JArray xs), t, p, JArray [], False, ms),
         Inl (JArray xs, t, p, ms))
        \<in> measure (\<lambda>x. case x of
          Inl (obj, _) \<Rightarrow> 2 * size obj
        | Inr (es, _) \<Rightarrow> 2 * size_list (\<lambda>e. size (snd e)) es + 1)"
    using size_arrayEntries [of 0 xs] by simp
qed auto


text \<open>
  The memo that calls the filter (\<^verbatim>\<open>const { filteredJson, matched } = useMemo(...)\<close>),
  as a function of the two values it depends on.
\<close>

definition useMemo :: "json \<Rightarrow> string \<Rightarrow> json \<times> string list list" where
  "useMemo jsonData searchTerm =
     (let term = toLowerCase (trim searchTerm)
      in if term = [] \<or> \<not> truthy jsonData then (jsonData, [])
         else case filterTree jsonData term [] [] of
                (filtered, matches) \<Rightarrow> (if truthy filtered then filtered else JObject [], matches))"

text \<open>
  The \<^verbatim>\<open>shouldExpandNodeInitially\<close> callback handed to the tree viewer.  It reads
  \<^verbatim>\<open>searchTerm\<close> and \<^verbatim>\<open>matchedPaths\<close> from the component state; the viewer
  supplies \<^verbatim>\<open>keyPath\<close>, an array of strings and numbers.
\<close>

datatype pathItem = Name string | Index nat

fun itemString :: "pathItem \<Rightarrow> string" where
  "itemString (Name s) = s"
| "itemString (Index i) = showNat i"

definition shouldExpandNodeInitially :: "string \<Rightarrow> string list list \<Rightarrow> pathItem list \<Rightarrow> bool" where
  "shouldExpandNodeInitially searchTerm matchedPaths keyPath =
     (if searchTerm \<noteq> [] then
        list_ex (\<lambda>mp. let pathStr = join mp;
                          keyPathStr = join (map itemString keyPath)
                      in startsWith pathStr keyPathStr) matchedPaths
      else length keyPath = 1)"

section \<open>Notions used to state the properties\<close>

text \<open>A value as \<^verbatim>\<open>JSON.parse\<close> can build it: the keys of every object are
  pairwise distinct.\<close>

fun wellFormed :: "json \<Rightarrow> bool"
  and wellFormedEntries :: "(string \<times> json) list \<Rightarrow> bool"
  and wellFormedSlots :: "json option list \<Rightarrow> bool"
where
  "wellFormed (JObject kvs) = (distinct (map fst kvs) \<and> wellFormedEntries kvs)"
| "wellFormed (JArray xs) = wellFormedSlots xs"
| "wellFormed (JString s) = True"
| "wellFormed (JNumber n) = True"
| "wellFormed (JBool b) = True"
| "wellFormed JNull = True"
| "wellFormed JUndefined = True"
| "wellFormedEntries [] = True"
| "wellFormedEntries ((k, v) # kvs) = (wellFormed v \<and> wellFormedEntries kvs)"
| "wellFormedSlots [] = True"
| "wellFormedSlots (None # xs) = wellFormedSlots xs"
| "wellFormedSlots (Some v # xs) = (wellFormed v \<and> wellFormedSlots xs)"

text \<open>Leaves, and the string form of a leaf (\<^verbatim>\<open>String(v)\<close>).\<close>

fun isLeaf :: "json \<Rightarrow> bool" where
  "isLeaf (JObject kvs) = False"
| "isLeaf (JArray xs) = False"
| "isLeaf v = True"

definition showInt :: "int \<Rightarrow> string" where
  "showInt n = (if n < 0 then ''-'' @ showNat (nat (- n)) else showNat (nat n))"

fun stringForm :: "json \<Rightarrow> string" where
  "stringForm (JString s) = s"
| "stringForm (JNumber n) = showInt n"
| "stringForm (JBool b) = (if b then ''true'' else ''false'')"
| "stringForm JNull = ''null''"
| "stringForm JUndefined = ''undefined''"
| "stringForm v = []"

text \<open>What the loop stores for an entry: the value itself under a matching key,
  else the filtered value when there is one, else nothing.\<close>

definition keptValue :: "string \<Rightarrow> string \<Rightarrow> json \<Rightarrow> json option" where
  "keptValue term key val =
     (if includesStr (toLowerCase key) term then Some val
      else if looseNotNull (fst (filterTree val term [] [])) then Some (fst (filterTree val term [] []))
      else None)"

text \<open>
  The order of the match list in the words of the specification: depth first,
  containers in their iteration order, the matches inside an entry before the
  match of the entry's own key.
\<close>

function dfsMatches :: "json \<Rightarrow> string \<Rightarrow> string list \<Rightarrow> string list list" where
  "dfsMatches v term path =
     (case v of
        JString s \<Rightarrow> if includesStr (toLowerCase s) term then [path] else []
      | _ \<Rightarrow> concat (map (\<lambda>e. dfsMatches (snd e) term (path @ [fst e])
                              @ (if includesStr (toLowerCase (fst e)) term then [path @ [fst e]] else []))
                      (ownEntries v)))"
  by pat_completeness auto

lemma size_ownEntries:
  "e \<in> set (ownEntries v) \<Longrightarrow> size (snd e) < size v"
proof -
  assume e: "e \<in> set (ownEntries v)"
  have mem: "\<And>es. e \<in> set es \<Longrightarrow> size (snd e) \<le> size_list (\<lambda>e. size (snd e)) es"
  proof -
    fix es :: "(string \<times> json) list"
    show "e \<in> set es \<Longrightarrow> size (snd e) \<le> size_list (\<lambda>e. size (snd e)) es"
      by (induction es) auto
  qed
  show ?thesis
  proof (cases v)
    case (JObject kvs)
    with e mem [of kvs] size_objectEntries [of kvs] show ?thesis by simp
  next
    case (JArray xs)
    with e mem [of "arrayEntries 0 xs"] size_arrayEntries [of 0 xs] show ?thesis by simp
  qed (use e in simp_all)
qed

termination dfsMatches
proof (relation "measure (\<lambda>(v, _). size v)")
  show "wf (measure (\<lambda>(v, _). size v))" by simp
qed (simp_all add: size_ownEntries del: ownEntries.simps json.size)

declare dfsMatches.simps [simp del]

text \<open>
  \<open>isPruned p v\<close>: \<open>p\<close> is \<open>v\<close> with entries left out.  Either \<open>p\<close> is \<open>v\<close>, or
  both are containers of the same kind and the entries of \<open>p\<close> are, in the same
  order and under the same keys (for an array: the same indices), pruned
  entries of \<open>v\<close>.
\<close>

function isPruned :: "json \<Rightarrow> json \<Rightarrow> bool"
  and entriesPruned :: "(string \<times> json) list \<Rightarrow> (string \<times> json) list \<Rightarrow> bool"
where
  "isPruned p v =
     (p = v \<or>
      (case (p, v) of
         (JObject ps, JObject kvs) \<Rightarrow> entriesPruned (ownEntries p) (ownEntries v)
       | (JArray ps, JArray xs) \<Rightarrow> length ps \<le> length xs \<and> entriesPruned (ownEntries p) (ownEntries v)
       | _ \<Rightarrow> False))"
| "entriesPruned [] es = True"
| "entriesPruned (q # qs) [] = False"
| "entriesPruned (q # qs) (e # es) =
     ((fst q = fst e \<and> isPruned (snd q) (snd e) \<and> entriesPruned qs es)
      \<or> entriesPruned (q # qs) es)"
  by pat_completeness auto

lemma size_list_ownEntries:
  "\<not> isLeaf v \<Longrightarrow> size_list (\<lambda>e. size (snd e)) (ownEntries v) < size v"
  using size_objectEntries size_arrayEntries [of 0]
  by (cases v) (simp_all add: less_Suc_eq_le)

lemma size_list_ownEntries_twice:
  "\<not> isLeaf v \<Longrightarrow> Suc (2 * size_list (\<lambda>e. size (snd e)) (ownEntries v)) < 2 * size v"
  using size_list_ownEntries [of v] by arith

termination isPruned
  by (relation "measure (\<lambda>x. case x of
          Inl (_, v) \<Rightarrow> 2 * size v
        | Inr (_, es) \<Rightarrow> 2 * size_list (\<lambda>e. size (snd e)) es + 1)")
     (simp_all add: size_list_ownEntries_twice del: ownEntries.simps json.size)

declare isPruned.simps [simp del]


section \<open>Facts about strings, indices and entries\<close>

lemma startsWith_prefix: "startsWith s t \<longleftrightarrow> prefix t s"
  by (induction s t rule: startsWith.induct) auto

lemma includesStr_sublist: "includesStr s t \<longleftrightarrow> sublist t s"
  by (induction s) (auto simp: startsWith_prefix sublist_Cons_right)

lemma of_char_digitChar: "d < 10 \<Longrightarrow> (of_char (digitChar d) :: nat) = 48 + d"
  by (simp add: digitChar_def)

lemma isDigit_digitChar: "d < 10 \<Longrightarrow> isDigit (digitChar d)"
  by (simp add: isDigit_def of_char_digitChar)

lemma showNat_digits: "list_all isDigit (showNat n)"
proof (induction n rule: showNat.induct)
  case (1 n)
  then show ?case
    by (subst showNat.simps) (simp add: isDigit_digitChar)
qed

lemma showNat_nonempty: "showNat n \<noteq> []"
  by (subst showNat.simps) simp

lemma parseNat_snoc: "parseNat (s @ [c]) = 10 * parseNat s + (of_char c - 48)"
  by (simp add: parseNat_def)

lemma parseNat_showNat: "parseNat (showNat n) = n"
proof (induction n rule: showNat.induct)
  case (1 n)
  show ?case
  proof (cases "n < 10")
    case True
    then show ?thesis
      by (subst showNat.simps) (simp add: parseNat_def of_char_digitChar)
  next
    case False
    with 1 show ?thesis
      by (subst showNat.simps) (simp add: parseNat_snoc of_char_digitChar)
  qed
qed

lemma arrayIndex_showNat: "arrayIndex (showNat n) = Some n"
  by (simp add: arrayIndex_def showNat_digits showNat_nonempty parseNat_showNat)

lemma arrayIndex_SomeD: "arrayIndex k = Some i \<Longrightarrow> k = showNat i"
  by (auto simp: arrayIndex_def split: if_splits)

lemma showNat_inj: "showNat m = showNat n \<Longrightarrow> m = n"
  by (metis arrayIndex_showNat option.inject)

lemma arrayIndex_proto: "arrayIndex ''__proto__'' = None"
  by (simp add: arrayIndex_def isDigit_def)

lemma showNat_not_proto: "showNat n \<noteq> ''__proto__''"
  using arrayIndex_showNat [of n] arrayIndex_proto by auto

lemma arrayEntries_append:
  "arrayEntries n (xs @ ys) = arrayEntries n xs @ arrayEntries (n + length xs) ys"
  by (induction n xs rule: arrayEntries.induct) simp_all

lemma arrayEntries_holes: "arrayEntries n (replicate m None) = []"
  by (induction m arbitrary: n) simp_all

lemma arrayEntries_keys:
  "(k, v) \<in> set (arrayEntries n xs) \<longleftrightarrow> (\<exists>i. k = showNat (n + i) \<and> elemAt xs i = Some v)"
proof (induction n xs rule: arrayEntries.induct)
  case (1 i)
  show ?case by (simp add: elemAt_def)
next
  case (2 n xs)
  have "(\<exists>i. k = showNat (n + i) \<and> elemAt (None # xs) i = Some v)
        \<longleftrightarrow> (\<exists>j. k = showNat (Suc n + j) \<and> elemAt xs j = Some v)"
  proof
    assume "\<exists>i. k = showNat (n + i) \<and> elemAt (None # xs) i = Some v"
    then obtain i where i: "k = showNat (n + i)" "elemAt (None # xs) i = Some v" by blast
    then obtain j where "i = Suc j" by (cases i) (auto simp: elemAt_def)
    with i show "\<exists>j. k = showNat (Suc n + j) \<and> elemAt xs j = Some v"
      by (auto simp: elemAt_def split: if_splits)
  next
    assume "\<exists>j. k = showNat (Suc n + j) \<and> elemAt xs j = Some v"
    then obtain j where "k = showNat (Suc n + j)" "elemAt xs j = Some v" by blast
    then have "k = showNat (n + Suc j) \<and> elemAt (None # xs) (Suc j) = Some v"
      by (auto simp: elemAt_def split: if_splits)
    then show "\<exists>i. k = showNat (n + i) \<and> elemAt (None # xs) i = Some v" by blast
  qed
  with 2 show ?case by simp
next
  case (3 n w xs)
  have "(\<exists>i. k = showNat (n + i) \<and> elemAt (Some w # xs) i = Some v)
        \<longleftrightarrow> (k = showNat n \<and> w = v) \<or> (\<exists>j. k = showNat (Suc n + j) \<and> elemAt xs j = Some v)"
  proof
    assume "\<exists>i. k = showNat (n + i) \<and> elemAt (Some w # xs) i = Some v"
    then obtain i where i: "k = showNat (n + i)" "elemAt (Some w # xs) i = Some v" by blast
    show "(k = showNat n \<and> w = v) \<or> (\<exists>j. k = showNat (Suc n + j) \<and> elemAt xs j = Some v)"
    proof (cases i)
      case 0
      with i show ?thesis by (simp add: elemAt_def)
    next
      case (Suc j)
      with i have "k = showNat (Suc n + j) \<and> elemAt xs j = Some v"
        by (auto simp: elemAt_def split: if_splits)
      then show ?thesis by blast
    qed
  next
    assume "(k = showNat n \<and> w = v) \<or> (\<exists>j. k = showNat (Suc n + j) \<and> elemAt xs j = Some v)"
    then show "\<exists>i. k = showNat (n + i) \<and> elemAt (Some w # xs) i = Some v"
    proof
      assume "k = showNat n \<and> w = v"
      then have "k = showNat (n + 0) \<and> elemAt (Some w # xs) 0 = Some v"
        by (simp add: elemAt_def)
      then show ?thesis by blast
    next
      assume "\<exists>j. k = showNat (Suc n + j) \<and> elemAt xs j = Some v"
      then obtain j where "k = showNat (Suc n + j)" "elemAt xs j = Some v" by blast
      then have "k = showNat (n + Suc j) \<and> elemAt (Some w # xs) (Suc j) = Some v"
        by (auto simp: elemAt_def split: if_splits)
      then show ?thesis by blast
    qed
  qed
  with 3 show ?case by auto
qed

lemma arrayEntries_distinct: "distinct (map fst (arrayEntries n xs))"
proof (induction n xs rule: arrayEntries.induct)
  case (3 n w xs)
  have "showNat n \<notin> fst ` set (arrayEntries (Suc n) xs)"
  proof
    assume "showNat n \<in> fst ` set (arrayEntries (Suc n) xs)"
    then obtain v where "(showNat n, v) \<in> set (arrayEntries (Suc n) xs)" by auto
    then obtain i where "showNat n = showNat (Suc n + i)"
      by (auto simp: arrayEntries_keys)
    then show False by (auto dest: showNat_inj)
  qed
  with 3 show ?case by simp
qed simp_all

lemma map_of_arrayEntries:
  "map_of (arrayEntries 0 xs) k = (case arrayIndex k of None \<Rightarrow> None | Some i \<Rightarrow> elemAt xs i)"
proof (cases "map_of (arrayEntries 0 xs) k")
  case None
  show ?thesis
  proof (cases "arrayIndex k")
    case (Some i)
    have "elemAt xs i = None"
    proof (rule ccontr)
      assume "elemAt xs i \<noteq> None"
      then obtain v where "elemAt xs i = Some v" by auto
      with Some have "(k, v) \<in> set (arrayEntries 0 xs)"
        by (auto simp: arrayEntries_keys dest: arrayIndex_SomeD)
      with None show False by (simp add: map_of_eq_None_iff image_iff) force
    qed
    with None Some show ?thesis by simp
  qed (use None in simp)
next
  case (Some v)
  then have "(k, v) \<in> set (arrayEntries 0 xs)" by (rule map_of_SomeD)
  then obtain i where "k = showNat i" "elemAt xs i = Some v"
    by (auto simp: arrayEntries_keys)
  with Some show ?thesis by (simp add: arrayIndex_showNat)
qed

lemma getProp_ownEntries: "getProp v k = map_of (ownEntries v) k"
  by (cases v) (simp_all add: map_of_arrayEntries)

section \<open>The loop as a fold\<close>

text \<open>One pass of the loop body on the result under construction, the entry
  that ends up in the result, and the paths an entry contributes.\<close>

definition store :: "string \<Rightarrow> json \<Rightarrow> string \<times> json \<Rightarrow> json" where
  "store t r e = (case keptValue t (fst e) (snd e) of None \<Rightarrow> r | Some x \<Rightarrow> setProp r (fst e) x)"

definition keepEntry :: "string \<Rightarrow> string \<times> json \<Rightarrow> (string \<times> json) option" where
  "keepEntry t e =
     (if fst e = ''__proto__'' then None else map_option (Pair (fst e)) (keptValue t (fst e) (snd e)))"

definition entryMatches :: "string \<Rightarrow> string list \<Rightarrow> string \<times> json \<Rightarrow> string list list" where
  "entryMatches t p e =
     dfsMatches (snd e) t (p @ [fst e])
     @ (if includesStr (toLowerCase (fst e)) t then [p @ [fst e]] else [])"

lemma store_pair:
  "store t r (k, v) = (case keptValue t k v of None \<Rightarrow> r | Some x \<Rightarrow> setProp r k x)"
  by (simp add: store_def split: option.splits)

lemma entryMatches_pair:
  "entryMatches t p (k, v) =
     dfsMatches v t (p @ [k]) @ (if includesStr (toLowerCase k) t then [p @ [k]] else [])"
  by (simp add: entryMatches_def)

lemma keptValue_cases:
  "keptValue t k v =
     (if includesStr (toLowerCase k) t then Some v
      else if looseNotNull (fst (filterTree v t [] [])) then Some (fst (filterTree v t [] []))
      else None)"
  by (simp add: keptValue_def)

lemma json_entries_induct [case_names step]:
  assumes "\<And>v. (\<And>e. e \<in> set (ownEntries v) \<Longrightarrow> P (snd e)) \<Longrightarrow> P v"
  shows "P v"
proof (induction v rule: measure_induct_rule [of size])
  case (less v)
  show ?case
    by (rule assms) (rule less, rule size_ownEntries)
qed

lemma dfsMatches_entries:
  "dfsMatches v t p =
     (case v of JString s \<Rightarrow> if includesStr (toLowerCase s) t then [p] else []
      | _ \<Rightarrow> concat (map (entryMatches t p) (ownEntries v)))"
  by (subst dfsMatches.simps) (simp add: entryMatches_def [abs_def] split: json.splits)

lemma forIn_foldl:
  assumes "\<And>e p ms. e \<in> set es \<Longrightarrow>
             filterTree (snd e) t p ms = (fst (filterTree (snd e) t [] []), ms @ dfsMatches (snd e) t p)"
  shows "forIn es t p (r, h, ms) =
           (foldl (store t) r es,
            h \<or> (\<exists>e\<in>set es. keptValue t (fst e) (snd e) \<noteq> None),
            ms @ concat (map (entryMatches t p) es))"
  using assms
proof (induction es arbitrary: r h ms)
  case Nil
  show ?case by simp
next
  case (Cons e es)
  obtain k v where e: "e = (k, v)" by (cases e)
  have call: "filterTree v t (p @ [k]) ms = (fst (filterTree v t [] []), ms @ dfsMatches v t (p @ [k]))"
    using Cons.prems [of e "p @ [k]" ms] e by simp
  have rest: "forIn es t p (r', h', ms') =
           (foldl (store t) r' es,
            h' \<or> (\<exists>e\<in>set es. keptValue t (fst e) (snd e) \<noteq> None),
            ms' @ concat (map (entryMatches t p) es))" for r' h' ms'
    by (rule Cons.IH, rule Cons.prems, simp)
  show ?case
    unfolding e
    by (simp add: call rest Let_def store_pair entryMatches_pair keptValue_cases [of t k v])
qed

lemma filterTree_eq:
  "filterTree v t p ms = (fst (filterTree v t [] []), ms @ dfsMatches v t p)"
proof (induction v arbitrary: p ms rule: json_entries_induct)
  case (step v)
  have loop: "forIn (ownEntries v) t p' (r, h, ms') =
           (foldl (store t) r (ownEntries v),
            h \<or> (\<exists>e\<in>set (ownEntries v). keptValue t (fst e) (snd e) \<noteq> None),
            ms' @ concat (map (entryMatches t p') (ownEntries v)))" for p' r h ms'
    by (rule forIn_foldl) (rule step)
  show ?case
  proof (cases v)
    case (JObject kvs)
    show ?thesis
      unfolding JObject filterTree.simps loop [unfolded JObject]
      by (simp add: dfsMatches_entries)
  next
    case (JArray xs)
    show ?thesis
      unfolding JArray filterTree.simps loop [unfolded JArray]
      by (simp add: dfsMatches_entries)
  qed (simp_all add: dfsMatches_entries)
qed

lemma forIn_eq:
  "forIn es t p (r, h, ms) =
           (foldl (store t) r es,
            h \<or> (\<exists>e\<in>set es. keptValue t (fst e) (snd e) \<noteq> None),
            ms @ concat (map (entryMatches t p) es))"
  by (rule forIn_foldl) (rule filterTree_eq)

section \<open>The result of the loop\<close>

lemma update_fresh: "k \<notin> fst ` set al \<Longrightarrow> AList.update k v al = al @ [(k, v)]"
  by (induction al) auto

lemma foldl_store_object:
  "distinct (map fst es) \<Longrightarrow> fst ` set es \<inter> fst ` set acc = {} \<Longrightarrow>
   foldl (store t) (JObject acc) es = JObject (acc @ List.map_filter (keepEntry t) es)"
proof (induction es arbitrary: acc)
  case Nil
  show ?case by simp
next
  case (Cons e es)
  obtain k v where e: "e = (k, v)" by (cases e)
  from Cons.prems e have fresh: "k \<notin> fst ` set acc" and d: "distinct (map fst es)"
    and k: "k \<notin> fst ` set es" and disj: "fst ` set es \<inter> fst ` set acc = {}"
    by auto
  show ?case
  proof (cases "keepEntry t e")
    case None
    then have "store t (JObject acc) e = JObject acc"
      by (auto simp: keepEntry_def store_def e split: if_splits option.splits)
    with None Cons.IH [OF d disj] show ?thesis
      by simp
  next
    case (Some q)
    then obtain x where x: "keptValue t k v = Some x" "q = (k, x)" "k \<noteq> ''__proto__''"
      by (auto simp: keepEntry_def e split: if_splits)
    then have st: "store t (JObject acc) e = JObject (acc @ [(k, x)])"
      by (simp add: store_def e update_fresh [OF fresh])
    have "fst ` set es \<inter> fst ` set (acc @ [(k, x)]) = {}"
      using disj k by auto
    from Cons.IH [OF d this] Some x st show ?thesis
      by simp
  qed
qed

lemma arraySet_extend:
  "length ys \<le> n \<Longrightarrow> arraySet ys n x = ys @ replicate (n - length ys) None @ [Some x]"
  by (simp add: arraySet_def)

lemma foldl_store_array:
  "length ys \<le> n \<Longrightarrow>
   \<exists>zs. foldl (store t) (JArray ys) (arrayEntries n xs) = JArray zs
      \<and> arrayEntries 0 zs = arrayEntries 0 ys @ List.map_filter (keepEntry t) (arrayEntries n xs)
      \<and> length zs \<le> max (length ys) (n + length xs)"
proof (induction n xs arbitrary: ys rule: arrayEntries.induct)
  case (1 i)
  show ?case by simp
next
  case (2 i xs)
  from 2 have "length ys \<le> Suc i" by simp
  from "2.IH" [OF this] show ?case by auto
next
  case (3 i v xs)
  show ?case
  proof (cases "keptValue t (showNat i) v")
    case None
    then have st: "store t (JArray ys) (showNat i, v) = JArray ys"
      and kp: "keepEntry t (showNat i, v) = None"
      by (simp_all add: store_def keepEntry_def)
    from 3 have "length ys \<le> Suc i" by simp
    from "3.IH" [OF this] st kp show ?thesis
      by auto
  next
    case (Some x)
    let ?ys = "ys @ replicate (i - length ys) None @ [Some x]"
    from Some have st: "store t (JArray ys) (showNat i, v) = JArray ?ys"
      and kp: "keepEntry t (showNat i, v) = Some (showNat i, x)"
      using "3.prems"
      by (simp_all add: store_def keepEntry_def arrayIndex_showNat arraySet_extend showNat_not_proto)
    have len: "length ?ys = Suc i" using "3.prems" by simp
    then have "length ?ys \<le> Suc i" by simp
    from "3.IH" [OF this] obtain zs where zs:
      "foldl (store t) (JArray ?ys) (arrayEntries (Suc i) xs) = JArray zs"
      "arrayEntries 0 zs = arrayEntries 0 ?ys @ List.map_filter (keepEntry t) (arrayEntries (Suc i) xs)"
      "length zs \<le> max (length ?ys) (Suc i + length xs)"
      by blast
    have ent: "arrayEntries 0 ?ys = arrayEntries 0 ys @ [(showNat i, x)]"
      using "3.prems" by (simp add: arrayEntries_append arrayEntries_holes)
    from zs st kp ent len show ?thesis
      by auto
  qed
qed

lemma keepEntry_None_iff:
  "keepEntry t e = None \<longleftrightarrow> fst e = ''__proto__'' \<or> keptValue t (fst e) (snd e) = None"
  by (simp add: keepEntry_def)

lemma map_filter_empty: "(\<forall>e\<in>set es. f e = None) \<Longrightarrow> List.map_filter f es = []"
  by (induction es) (simp_all add: List.map_filter_simps)

text \<open>The result of the filter on a container, through the fold.\<close>

lemma filterTree_object:
  "fst (filterTree (JObject kvs) t p ms) =
     (if \<exists>e\<in>set kvs. keptValue t (fst e) (snd e) \<noteq> None
      then foldl (store t) (JObject []) kvs else JNull)"
  by (simp add: forIn_eq)

lemma filterTree_array:
  "fst (filterTree (JArray xs) t p ms) =
     (if \<exists>e\<in>set (arrayEntries 0 xs). keptValue t (fst e) (snd e) \<noteq> None
      then foldl (store t) (JArray []) (arrayEntries 0 xs) else JNull)"
  by (simp add: forIn_eq)

lemma ownEntries_filterTree:
  assumes "distinct (map fst (ownEntries v))"
  shows "ownEntries (fst (filterTree v t p ms)) = List.map_filter (keepEntry t) (ownEntries v)"
proof (cases v)
  case (JObject kvs)
  show ?thesis
  proof (cases "\<exists>e\<in>set kvs. keptValue t (fst e) (snd e) \<noteq> None")
    case True
    with assms JObject foldl_store_object [of kvs "[]" t] show ?thesis
      by (simp add: filterTree_object del: filterTree.simps)
  next
    case False
    then have "List.map_filter (keepEntry t) kvs = []"
      by (intro map_filter_empty) (simp add: keepEntry_None_iff)
    with False JObject show ?thesis by (simp add: filterTree_object del: filterTree.simps)
  qed
next
  case (JArray xs)
  show ?thesis
  proof (cases "\<exists>e\<in>set (arrayEntries 0 xs). keptValue t (fst e) (snd e) \<noteq> None")
    case True
    with JArray foldl_store_array [of "[]" 0 t xs] show ?thesis
      by (auto simp: filterTree_array simp del: filterTree.simps)
  next
    case False
    then have "List.map_filter (keepEntry t) (arrayEntries 0 xs) = []"
      by (intro map_filter_empty) (simp add: keepEntry_None_iff)
    with False JArray show ?thesis by (simp add: filterTree_array del: filterTree.simps)
  qed
qed simp_all

lemma store_object: "\<exists>ps. store t (JObject acc) e = JObject ps"
  by (simp add: store_def split: option.splits)

lemma foldl_store_isObject: "\<exists>ps. foldl (store t) (JObject acc) es = JObject ps"
proof (induction es arbitrary: acc)
  case Nil
  show ?case by simp
next
  case (Cons e es)
  obtain qs where "store t (JObject acc) e = JObject qs"
    using store_object by blast
  with Cons.IH [of qs] show ?case by simp
qed

lemma filterTree_kind:
  "fst (filterTree v t p ms) = JNull
   \<or> (\<exists>s. v = JString s \<and> fst (filterTree v t p ms) = v)
   \<or> (\<exists>kvs ps. v = JObject kvs \<and> fst (filterTree v t p ms) = JObject ps)
   \<or> (\<exists>xs ps. v = JArray xs \<and> fst (filterTree v t p ms) = JArray ps \<and> length ps \<le> length xs)"
proof (cases v)
  case (JObject kvs)
  obtain ps where "foldl (store t) (JObject []) kvs = JObject ps"
    using foldl_store_isObject by blast
  then have "fst (filterTree (JObject kvs) t p ms) = JNull
           \<or> fst (filterTree (JObject kvs) t p ms) = JObject ps"
    unfolding filterTree_object by simp
  with JObject show ?thesis by blast
next
  case (JArray xs)
  obtain zs where "foldl (store t) (JArray []) (arrayEntries 0 xs) = JArray zs"
    "length zs \<le> length xs"
    using foldl_store_array [of "[]" 0 t xs] by auto
  then have "fst (filterTree (JArray xs) t p ms) = JNull
           \<or> (fst (filterTree (JArray xs) t p ms) = JArray zs \<and> length zs \<le> length xs)"
    unfolding filterTree_array by simp
  with JArray show ?thesis by blast
next
  case (JString s)
  then show ?thesis by simp
qed simp_all

lemma map_of_map_filter_keepEntry:
  "distinct (map fst es) \<Longrightarrow>
   map_of (List.map_filter (keepEntry t) es) k =
     (case map_of es k of None \<Rightarrow> None
      | Some c \<Rightarrow> if k = ''__proto__'' then None else keptValue t k c)"
proof (induction es)
  case Nil
  show ?case by simp
next
  case (Cons e es)
  obtain k' v where e: "e = (k', v)" by (cases e)
  from Cons.prems e have notin: "map_of es k' = None"
    by (simp add: map_of_eq_None_iff)
  from Cons e notin show ?case
    by (cases "keptValue t k' v")
       (auto simp: keepEntry_def split: option.splits)
qed

lemma getProp_filterTree:
  assumes "distinct (map fst (ownEntries v))"
  shows "getProp (fst (filterTree v t p ms)) k =
     (if k = ''__proto__'' then None
      else case getProp v k of None \<Rightarrow> None | Some c \<Rightarrow> keptValue t k c)"
  using assms
  by (simp add: getProp_ownEntries ownEntries_filterTree map_of_map_filter_keepEntry
           split: option.splits)

section \<open>Structural fidelity\<close>

lemma wellFormedSlots_entries:
  "wellFormedSlots xs \<Longrightarrow> e \<in> set (arrayEntries n xs) \<Longrightarrow> wellFormed (snd e)"
  by (induction n xs rule: arrayEntries.induct) auto

lemma wellFormedEntries_mem:
  "wellFormedEntries kvs \<Longrightarrow> e \<in> set kvs \<Longrightarrow> wellFormed (snd e)"
  by (induction kvs) auto

lemma wellFormed_child:
  "wellFormed v \<Longrightarrow> e \<in> set (ownEntries v) \<Longrightarrow> wellFormed (snd e)"
  by (cases v) (auto dest: wellFormedSlots_entries wellFormedEntries_mem)

lemma wellFormed_distinct:
  "wellFormed v \<Longrightarrow> distinct (map fst (ownEntries v))"
  by (cases v) (simp_all add: arrayEntries_distinct)

lemma wellFormed_getProp:
  "wellFormed v \<Longrightarrow> getProp v k = Some c \<Longrightarrow> wellFormed c"
  using wellFormed_child [of v "(k, c)"]
  by (auto simp: getProp_ownEntries dest: map_of_SomeD)

lemma isPruned_refl: "isPruned v v"
  by (simp add: isPruned.simps)

lemma entriesPruned_skip: "entriesPruned qs es \<Longrightarrow> entriesPruned qs (e # es)"
  by (cases qs) simp_all

lemma entriesPruned_map_filter:
  assumes "\<And>e x. e \<in> set es \<Longrightarrow> keptValue t (fst e) (snd e) = Some x \<Longrightarrow> isPruned x (snd e)"
  shows "entriesPruned (List.map_filter (keepEntry t) es) es"
  using assms
proof (induction es)
  case Nil
  show ?case by simp
next
  case (Cons e es)
  have rest: "entriesPruned (List.map_filter (keepEntry t) es) es"
    by (rule Cons.IH) (rule Cons.prems, simp_all)
  show ?case
  proof (cases "keepEntry t e")
    case None
    with rest show ?thesis by (simp add: entriesPruned_skip)
  next
    case (Some q)
    then obtain x where x: "keptValue t (fst e) (snd e) = Some x" "q = (fst e, x)"
      by (auto simp: keepEntry_def split: if_splits)
    then have "isPruned x (snd e)" using Cons.prems [of e x] by simp
    with Some x rest show ?thesis by simp
  qed
qed

lemma keptValue_SomeD:
  "keptValue t k v = Some x \<Longrightarrow>
     x = v \<or> (x = fst (filterTree v t [] []) \<and> x \<noteq> JNull)"
  by (auto simp: keptValue_def split: if_splits)

lemma filterTree_isPruned:
  "wellFormed v \<Longrightarrow> fst (filterTree v t p ms) = JNull \<or> isPruned (fst (filterTree v t p ms)) v"
proof (induction v arbitrary: p ms rule: json_entries_induct)
  case (step v)
  let ?r = "fst (filterTree v t p ms)"
  have child: "isPruned x (snd e)"
    if "e \<in> set (ownEntries v)" "keptValue t (fst e) (snd e) = Some x" for e x
  proof -
    from that(1) step.prems have "wellFormed (snd e)" by (rule wellFormed_child [rotated])
    from step.IH [OF that(1) this, of "[]" "[]"] keptValue_SomeD [OF that(2)]
    show ?thesis by (auto simp: isPruned_refl)
  qed
  have ents: "entriesPruned (ownEntries ?r) (ownEntries v)"
    unfolding ownEntries_filterTree [OF wellFormed_distinct [OF step.prems]]
    by (rule entriesPruned_map_filter) (rule child)
  from filterTree_kind [of v t p ms] show ?case
  proof (elim disjE exE conjE)
    assume "?r = JNull"
    then show ?thesis by simp
  next
    fix s assume "v = JString s" "?r = v"
    then show ?thesis by (simp add: isPruned_refl del: filterTree.simps)
  next
    fix kvs ps assume "v = JObject kvs" "?r = JObject ps"
    with ents show ?thesis by (simp add: isPruned.simps del: filterTree.simps)
  next
    fix xs ps assume "v = JArray xs" "?r = JArray ps" "length ps \<le> length xs"
    with ents show ?thesis by (simp add: isPruned.simps del: filterTree.simps)
  qed
qed

lemma useMemo_cases:
  "useMemo doc s =
     (if toLowerCase (trim s) = [] \<or> \<not> truthy doc then (doc, [])
      else (if truthy (fst (filterTree doc (toLowerCase (trim s)) [] []))
            then fst (filterTree doc (toLowerCase (trim s)) [] []) else JObject [],
            dfsMatches doc (toLowerCase (trim s)) []))"
proof (cases "filterTree doc (toLowerCase (trim s)) [] []")
  case (Pair r ms)
  with filterTree_eq [of doc "toLowerCase (trim s)" "[]" "[]"]
  have "ms = dfsMatches doc (toLowerCase (trim s)) []" by simp
  with Pair show ?thesis
    by (simp add: useMemo_def Let_def)
qed

text \<open>
  Claim C7.  For a well-formed document the value that the filter returns is
  \<^verbatim>\<open>null\<close> (nothing kept) or a pruning of the document: every key and every
  index of it is one of the original at the same place, with the original's value
  or a pruning of it, and the kept entries of a container stand in the original's
  order.  The memo turns \<^verbatim>\<open>null\<close> into the empty object, so what it returns is
  the empty object or a pruning of the document.
\<close>

theorem pruned_tree_is_subtree:
  assumes "wellFormed doc"
  shows "(fst (filterTree doc t p ms) = JNull \<or> isPruned (fst (filterTree doc t p ms)) doc)
       \<and> (fst (useMemo doc s) = JObject [] \<or> isPruned (fst (useMemo doc s)) doc)"
proof
  show "fst (filterTree doc t p ms) = JNull \<or> isPruned (fst (filterTree doc t p ms)) doc"
    using assms by (rule filterTree_isPruned)
next
  let ?t = "toLowerCase (trim s)"
  from filterTree_isPruned [OF assms, of ?t "[]" "[]"]
  show "fst (useMemo doc s) = JObject [] \<or> isPruned (fst (useMemo doc s)) doc"
    by (auto simp: useMemo_cases isPruned_refl)
qed

theorem pruned_tree_is_subtree_witness:
  "wellFormed (JObject [(''a'', JArray [Some (JString ''x''), Some (JString ''Match'')]), (''b'', JNull)])
   \<and> fst (filterTree (JObject [(''a'', JArray [Some (JString ''x''), Some (JString ''Match'')]), (''b'', JNull)])
            ''match'' [] [])
     = JObject [(''a'', JArray [None, Some (JString ''Match'')])]
   \<and> isPruned (JObject [(''a'', JArray [None, Some (JString ''Match'')])])
        (JObject [(''a'', JArray [Some (JString ''x''), Some (JString ''Match'')]), (''b'', JNull)])"
proof -
  let ?doc = "JObject [(''a'', JArray [Some (JString ''x''), Some (JString ''Match'')]), (''b'', JNull)]"
  have w: "wellFormed ?doc" by simp
  have r: "fst (filterTree ?doc ''match'' [] []) = JObject [(''a'', JArray [None, Some (JString ''Match'')])]"
    by code_simp
  from pruned_tree_is_subtree [OF w, of "''match''" "[]" "[]" "''match''"] w r
  show ?thesis by simp
qed

section \<open>Leaves that match and leaves that do not\<close>

lemma getProp_entry: "getProp v k = Some c \<Longrightarrow> (k, c) \<in> set (ownEntries v)"
  by (simp add: getProp_ownEntries map_of_SomeD)

lemma getProp_not_string: "getProp v k = Some c \<Longrightarrow> v \<noteq> JString s"
  by (cases v) simp_all

lemma dfsMatches_container:
  "getProp v k = Some c \<Longrightarrow> dfsMatches v t p = concat (map (entryMatches t p) (ownEntries v))"
  by (cases v) (simp_all add: dfsMatches_entries)

lemma dfsMatches_leaf:
  "reach doc path = Some (JString s) \<Longrightarrow> includesStr (toLowerCase s) t \<Longrightarrow>
   p @ path \<in> set (dfsMatches doc t p)"
proof (induction path arbitrary: doc p)
  case Nil
  then show ?case by (simp add: dfsMatches_entries)
next
  case (Cons k ks)
  then obtain c where c: "getProp doc k = Some c" "reach c ks = Some (JString s)"
    by (auto split: option.splits)
  from Cons.IH [OF c(2) Cons.prems(2), of "p @ [k]"]
  have "p @ k # ks \<in> set (entryMatches t p (k, c))"
    by (simp add: entryMatches_pair)
  moreover have "(k, c) \<in> set (ownEntries doc)" using c(1) by (rule getProp_entry)
  ultimately have "p @ k # ks \<in> set (concat (map (entryMatches t p) (ownEntries doc)))"
    unfolding set_concat by (simp only: set_map) blast
  then show ?case by (simp only: dfsMatches_container [OF c(1)])
qed

lemma reach_JNull: "reach JNull path = Some (JString s) \<Longrightarrow> False"
  by (cases path) simp_all

lemma reach_JUndefined: "reach JUndefined path = Some (JString s) \<Longrightarrow> False"
  by (cases path) simp_all

lemma reach_looseNotNull: "reach v path = Some (JString s) \<Longrightarrow> looseNotNull v"
  by (cases v) (auto dest: reach_JNull reach_JUndefined)

lemma matching_leaf_kept:
  "wellFormed doc \<Longrightarrow> reach doc path = Some (JString s) \<Longrightarrow> includesStr (toLowerCase s) t \<Longrightarrow>
   ''__proto__'' \<notin> set path \<Longrightarrow>
   reach (fst (filterTree doc t p ms)) path = Some (JString s)"
proof (induction path arbitrary: doc p ms)
  case Nil
  then show ?case by simp
next
  case (Cons k ks)
  then obtain c where c: "getProp doc k = Some c" "reach c ks = Some (JString s)"
    by (auto split: option.splits)
  have wc: "wellFormed c" using Cons.prems(1) c(1) by (rule wellFormed_getProp)
  from Cons.prems have k: "k \<noteq> ''__proto__''" and ks: "''__proto__'' \<notin> set ks" by auto
  have inner: "reach (fst (filterTree c t [] [])) ks = Some (JString s)"
    by (rule Cons.IH [OF wc c(2) Cons.prems(3) ks])
  have gp: "getProp (fst (filterTree doc t p ms)) k = keptValue t k c"
    using getProp_filterTree [OF wellFormed_distinct [OF Cons.prems(1)], of t p ms k] k c(1)
    by simp
  show ?case
  proof (cases "includesStr (toLowerCase k) t")
    case True
    then have "keptValue t k c = Some c" by (simp add: keptValue_def)
    with gp c(2) show ?thesis by simp
  next
    case False
    moreover have "looseNotNull (fst (filterTree c t [] []))"
      using inner by (rule reach_looseNotNull)
    ultimately have "keptValue t k c = Some (fst (filterTree c t [] []))"
      by (simp add: keptValue_def)
    with gp inner show ?thesis by simp
  qed
qed

lemma filterTree_leaf_null:
  "isLeaf l \<Longrightarrow> \<not> (\<exists>s. l = JString s \<and> includesStr (toLowerCase s) t) \<Longrightarrow>
   fst (filterTree l t p ms) = JNull"
  by (cases l) simp_all

lemma unmatched_leaf_pruned:
  "wellFormed doc \<Longrightarrow> reach doc path = Some l \<Longrightarrow> isLeaf l \<Longrightarrow>
   \<not> (\<exists>s. l = JString s \<and> includesStr (toLowerCase s) t) \<Longrightarrow>
   \<forall>k\<in>set path. \<not> includesStr (toLowerCase k) t \<Longrightarrow>
   (if path = [] then fst (filterTree doc t p ms) = JNull
    else reach (fst (filterTree doc t p ms)) path = None)"
proof (induction path arbitrary: doc p ms)
  case Nil
  then show ?case using filterTree_leaf_null [of l t p ms] by simp
next
  case (Cons k ks)
  then obtain c where c: "getProp doc k = Some c" "reach c ks = Some l"
    by (auto split: option.splits)
  have wc: "wellFormed c" using Cons.prems(1) c(1) by (rule wellFormed_getProp)
  from Cons.prems(5) have k: "\<not> includesStr (toLowerCase k) t"
    and ks: "\<forall>k\<in>set ks. \<not> includesStr (toLowerCase k) t" by simp_all
  have inner: "if ks = [] then fst (filterTree c t [] []) = JNull
               else reach (fst (filterTree c t [] [])) ks = None"
    by (rule Cons.IH [OF wc c(2) Cons.prems(3) Cons.prems(4) ks])
  have kept: "keptValue t k c = None \<or>
              (keptValue t k c = Some (fst (filterTree c t [] [])) \<and> fst (filterTree c t [] []) \<noteq> JNull)"
    using k by (auto simp: keptValue_def)
  have gp: "getProp (fst (filterTree doc t p ms)) k = None
            \<or> getProp (fst (filterTree doc t p ms)) k = keptValue t k c"
    using getProp_filterTree [OF wellFormed_distinct [OF Cons.prems(1)], of t p ms k] c(1)
    by (simp split: if_splits)
  from gp kept inner have "reach (fst (filterTree doc t p ms)) (k # ks) = None"
    by (cases "ks = []") (auto simp del: filterTree.simps)
  then show ?case by simp
qed

section \<open>Entries under a matching key\<close>

text \<open>An entry whose key matches is stored with its own value, makes the
  container non-null and has its path recorded, for every key that
  \<^verbatim>\<open>result[key] = val\<close> defines as an own property.\<close>

lemma key_match_entry_kept:
  assumes "distinct (map fst (ownEntries obj))"
    and "getProp obj key = Some val"
    and "includesStr (toLowerCase key) t"
    and "key \<noteq> ''__proto__''"
  shows "getProp (fst (filterTree obj t p ms)) key = Some val
       \<and> fst (filterTree obj t p ms) \<noteq> JNull
       \<and> p @ [key] \<in> set (snd (filterTree obj t p ms))"
proof -
  have kept: "keptValue t key val = Some val"
    using assms(3) by (simp add: keptValue_def)
  have gp: "getProp (fst (filterTree obj t p ms)) key = Some val"
    using getProp_filterTree [OF assms(1), of t p ms key] assms(2,4) kept by simp
  then have nonnull: "fst (filterTree obj t p ms) \<noteq> JNull"
    by (auto simp del: filterTree.simps)
  have "(key, val) \<in> set (ownEntries obj)" using assms(2) by (rule getProp_entry)
  moreover have "p @ [key] \<in> set (entryMatches t p (key, val))"
    using assms(3) by (simp add: entryMatches_pair)
  ultimately have "p @ [key] \<in> set (concat (map (entryMatches t p) (ownEntries obj)))"
    unfolding set_concat by (simp only: set_map) blast
  then have "p @ [key] \<in> set (dfsMatches obj t p)"
    by (simp only: dfsMatches_container [OF assms(2)])
  then have "p @ [key] \<in> set (snd (filterTree obj t p ms))"
    by (subst filterTree_eq) simp
  with gp nonnull show ?thesis by blast
qed

lemma key_match_example:
  "filterTree (JObject [(''match_key'', JObject [(''a'', JNumber 1), (''b'', JNumber 2)])]) ''match'' [] []
   = (JObject [(''match_key'', JObject [(''a'', JNumber 1), (''b'', JNumber 2)])], [[''match_key'']])"
  by code_simp

text \<open>
  Claim C1.  The claim holds for every entry of a sequence and for every entry
  of a mapping but one: under the key \<^verbatim>\<open>"__proto__"\<close> the assignment
  \<^verbatim>\<open>result[key] = val\<close> defines no own property.  For the document
  \<^verbatim>\<open>{"__proto__": "x"}\<close> and the term \<^verbatim>\<open>"proto"\<close> the key matches, the kept
  flag is set and the path is recorded, but the returned object has no entry.
\<close>

theorem proto_key_match_entry_missing:
  "includesStr (toLowerCase ''__proto__'') ''proto''
   \<and> filterTree (JObject [(''__proto__'', JString ''x'')]) ''proto'' [] [] = (JObject [], [[''__proto__'']])
   \<and> getProp (JObject [(''__proto__'', JString ''x'')]) ''__proto__'' = Some (JString ''x'')
   \<and> getProp (fst (filterTree (JObject [(''__proto__'', JString ''x'')]) ''proto'' [] [])) ''__proto__'' = None"
  by code_simp

section \<open>No false negatives\<close>

lemma no_false_negative:
  assumes "wellFormed doc"
    and "reach doc path = Some (JString s)"
    and "includesStr (toLowerCase s) t"
    and "''__proto__'' \<notin> set path"
  shows "p @ path \<in> set (snd (filterTree doc t p ms))
       \<and> reach (fst (filterTree doc t p ms)) path = Some (JString s)"
proof
  have "p @ path \<in> set (dfsMatches doc t p)"
    using assms(2,3) by (rule dfsMatches_leaf)
  then show "p @ path \<in> set (snd (filterTree doc t p ms))"
    by (subst filterTree_eq) simp
  show "reach (fst (filterTree doc t p ms)) path = Some (JString s)"
    using assms by (rule matching_leaf_kept)
qed

text \<open>
  Claim C2.  The path of a matching string leaf is always recorded, and the
  leaf is reachable in the result along every path that has no key
  \<^verbatim>\<open>"__proto__"\<close> (lemma \<open>no_false_negative\<close>).  Under such a key the leaf is
  lost: for the document \<^verbatim>\<open>{"__proto__": "match"}\<close> and the term
  \<^verbatim>\<open>"match"\<close> the path is recorded and the returned object is empty.
\<close>

theorem proto_key_leaf_missing:
  "reach (JObject [(''__proto__'', JString ''match'')]) [''__proto__''] = Some (JString ''match'')
   \<and> includesStr (toLowerCase ''match'') ''match''
   \<and> filterTree (JObject [(''__proto__'', JString ''match'')]) ''match'' [] [] = (JObject [], [[''__proto__'']])
   \<and> reach (fst (filterTree (JObject [(''__proto__'', JString ''match'')]) ''match'' [] [])) [''__proto__''] = None"
  by code_simp

section \<open>No false positives\<close>

lemma stringForm_unmatched:
  "\<not> includesStr (toLowerCase (stringForm l)) t \<Longrightarrow>
   \<not> (\<exists>s. l = JString s \<and> includesStr (toLowerCase s) t)"
  by auto

lemma truthy_filterTree:
  "truthy doc \<Longrightarrow> fst (filterTree doc t p ms) = JNull \<or> truthy (fst (filterTree doc t p ms))"
  using filterTree_kind [of doc t p ms] by (auto simp del: filterTree.simps)

lemma useMemo_truthy:
  "toLowerCase (trim s) \<noteq> [] \<Longrightarrow> truthy doc \<Longrightarrow>
   fst (useMemo doc s) =
     (if fst (filterTree doc (toLowerCase (trim s)) [] []) = JNull then JObject []
      else fst (filterTree doc (toLowerCase (trim s)) [] []))"
  using truthy_filterTree [of doc "toLowerCase (trim s)" "[]" "[]"]
  by (auto simp: useMemo_cases simp del: filterTree.simps)

text \<open>
  Claim C3, as the code has it.  For a well-formed document that is truthy
  (the memo hands a falsy document back unchanged)
  and a search term that is not empty once trimmed and lowercased: a leaf whose
  string form does not contain the term, lowercased, and that lies under no key
  containing the term is absent from what the memo returns, which is the empty
  object or has nothing at the path of the leaf.  The document
  \<^verbatim>\<open>{"x": {"y": "nomatch"}}\<close> with the term \<^verbatim>\<open>"zzz"\<close> gives the empty object.
\<close>

theorem no_false_positive:
  assumes "wellFormed doc" and "truthy doc" and "toLowerCase (trim s) \<noteq> []"
    and "reach doc path = Some l" and "isLeaf l"
    and "\<not> includesStr (toLowerCase (stringForm l)) (toLowerCase (trim s))"
    and "\<forall>k\<in>set path. \<not> includesStr (toLowerCase k) (toLowerCase (trim s))"
  shows "(fst (useMemo doc s) = JObject [] \<or> reach (fst (useMemo doc s)) path = None)
       \<and> useMemo (JObject [(''x'', JObject [(''y'', JString ''nomatch'')])]) ''zzz'' = (JObject [], [])"
proof
  let ?t = "toLowerCase (trim s)"
  let ?r = "fst (filterTree doc ?t [] [])"
  have "if path = [] then ?r = JNull else reach ?r path = None"
    using assms(1,4,5) stringForm_unmatched [OF assms(6)] assms(7)
    by (rule unmatched_leaf_pruned)
  then show "fst (useMemo doc s) = JObject [] \<or> reach (fst (useMemo doc s)) path = None"
    unfolding useMemo_truthy [OF assms(3) assms(2)]
    by (auto split: if_splits simp del: filterTree.simps)
next
  show "useMemo (JObject [(''x'', JObject [(''y'', JString ''nomatch'')])]) ''zzz'' = (JObject [], [])"
    by code_simp
qed

theorem no_false_positive_witness:
  "reach (JObject [(''x'', JObject [(''y'', JString ''nomatch'')]), (''z'', JString ''a zzz b'')]) [''x'', ''y'']
     = Some (JString ''nomatch'')
   \<and> fst (useMemo (JObject [(''x'', JObject [(''y'', JString ''nomatch'')]), (''z'', JString ''a zzz b'')]) ''ZZZ '')
     = JObject [(''z'', JString ''a zzz b'')]
   \<and> (fst (useMemo (JObject [(''x'', JObject [(''y'', JString ''nomatch'')]), (''z'', JString ''a zzz b'')]) ''ZZZ '')
        = JObject []
      \<or> reach (fst (useMemo (JObject [(''x'', JObject [(''y'', JString ''nomatch'')]), (''z'', JString ''a zzz b'')]) ''ZZZ ''))
           [''x'', ''y''] = None)
   \<and> useMemo (JObject [(''x'', JObject [(''y'', JString ''nomatch'')])]) ''zzz'' = (JObject [], [])"
proof -
  let ?doc = "JObject [(''x'', JObject [(''y'', JString ''nomatch'')]), (''z'', JString ''a zzz b'')]"
  have 1: "wellFormed ?doc" by simp
  have 2: "truthy ?doc" by simp
  have 3: "toLowerCase (trim ''ZZZ '') \<noteq> []" by code_simp
  have 4: "reach ?doc [''x'', ''y''] = Some (JString ''nomatch'')" by simp
  have 5: "isLeaf (JString ''nomatch'')" by simp
  have 6: "\<not> includesStr (toLowerCase (stringForm (JString ''nomatch''))) (toLowerCase (trim ''ZZZ ''))"
    by code_simp
  have 7: "\<forall>k\<in>set [''x'', ''y'']. \<not> includesStr (toLowerCase k) (toLowerCase (trim ''ZZZ ''))"
    by code_simp
  have r: "fst (useMemo ?doc ''ZZZ '') = JObject [(''z'', JString ''a zzz b'')]"
    by code_simp
  have c: "(fst (useMemo ?doc ''ZZZ '') = JObject [] \<or> reach (fst (useMemo ?doc ''ZZZ '')) [''x'', ''y''] = None)
         \<and> useMemo (JObject [(''x'', JObject [(''y'', JString ''nomatch'')])]) ''zzz'' = (JObject [], [])"
    by (rule no_false_positive [OF 1 2 3 4 5 6 7])
  show ?thesis by (rule conjI [OF 4 conjI [OF r c]])
qed

text \<open>The claim as stated fails for a document that is a falsy leaf: the number
  \<open>0\<close> searched for \<^verbatim>\<open>"zzz"\<close> comes back as the pruned tree.\<close>

theorem falsy_document_kept:
  "toLowerCase (trim ''zzz'') = ''zzz''
   \<and> reach (JNumber 0) [] = Some (JNumber 0)
   \<and> isLeaf (JNumber 0)
   \<and> \<not> includesStr (toLowerCase (stringForm (JNumber 0))) ''zzz''
   \<and> useMemo (JNumber 0) ''zzz'' = (JNumber 0, [])
   \<and> reach (fst (useMemo (JNumber 0) ''zzz'')) [] = Some (JNumber 0)"
  by code_simp

section \<open>The absent document\<close>

text \<open>
  Claim C4, as the code has it.  With a term that is not empty once trimmed and
  lowercased, a falsy document (\<^verbatim>\<open>null\<close>, the initial state, among them) is
  returned as it is with an empty match list.  For a truthy document the memo
  runs the filter on the document with that term, the empty path and an empty
  match list, and returns the filter's match list together with the filter's
  value, or the empty object when the filter returned \<^verbatim>\<open>null\<close>; that value is
  truthy, so never \<^verbatim>\<open>null\<close> or \<^verbatim>\<open>undefined\<close>.
\<close>

theorem useMemo_document_guard:
  assumes "toLowerCase (trim s) \<noteq> []"
  shows "(truthy doc \<longrightarrow>
            useMemo doc s
              = (if fst (filterTree doc (toLowerCase (trim s)) [] []) = JNull then JObject []
                 else fst (filterTree doc (toLowerCase (trim s)) [] []),
                 snd (filterTree doc (toLowerCase (trim s)) [] []))
          \<and> truthy (fst (useMemo doc s)) \<and> looseNotNull (fst (useMemo doc s)))
       \<and> (\<not> truthy doc \<longrightarrow> useMemo doc s = (doc, []))"
proof (intro conjI impI)
  assume d: "truthy doc"
  let ?t = "toLowerCase (trim s)"
  have v: "fst (useMemo doc s)
           = (if fst (filterTree doc ?t [] []) = JNull then JObject [] else fst (filterTree doc ?t [] []))"
    using assms d by (rule useMemo_truthy)
  have "snd (filterTree doc ?t [] []) = dfsMatches doc ?t []"
    by (subst filterTree_eq) simp
  moreover have "snd (useMemo doc s) = dfsMatches doc ?t []"
    using assms d by (simp add: useMemo_cases del: filterTree.simps)
  ultimately have m: "snd (useMemo doc s) = snd (filterTree doc ?t [] [])" by simp
  show "useMemo doc s
          = (if fst (filterTree doc ?t [] []) = JNull then JObject [] else fst (filterTree doc ?t [] []),
             snd (filterTree doc ?t [] []))"
    using v m by (simp only: prod_eq_iff fst_conv snd_conv)
  show "truthy (fst (useMemo doc s))"
    using assms d by (simp add: useMemo_cases del: filterTree.simps)
  moreover have "truthy v \<Longrightarrow> looseNotNull v" for v by (cases v) simp_all
  ultimately show "looseNotNull (fst (useMemo doc s))" by blast
next
  assume "\<not> truthy doc"
  then show "useMemo doc s = (doc, [])"
    by (simp add: useMemo_cases del: filterTree.simps)
qed

theorem useMemo_document_guard_witness:
  "toLowerCase (trim ''zzz'') \<noteq> []
   \<and> useMemo JNull ''zzz'' = (JNull, [])
   \<and> (useMemo (JObject [(''a'', JString ''x zzz''), (''b'', JString ''y'')]) ''zzz''
        = (if fst (filterTree (JObject [(''a'', JString ''x zzz''), (''b'', JString ''y'')])
                     (toLowerCase (trim ''zzz'')) [] []) = JNull
           then JObject []
           else fst (filterTree (JObject [(''a'', JString ''x zzz''), (''b'', JString ''y'')])
                       (toLowerCase (trim ''zzz'')) [] []),
           snd (filterTree (JObject [(''a'', JString ''x zzz''), (''b'', JString ''y'')])
                  (toLowerCase (trim ''zzz'')) [] []))
      \<and> truthy (fst (useMemo (JObject [(''a'', JString ''x zzz''), (''b'', JString ''y'')]) ''zzz''))
      \<and> looseNotNull (fst (useMemo (JObject [(''a'', JString ''x zzz''), (''b'', JString ''y'')]) ''zzz'')))
   \<and> useMemo (JObject [(''a'', JString ''x zzz''), (''b'', JString ''y'')]) ''zzz''
       = (JObject [(''a'', JString ''x zzz'')], [[''a'']])
   \<and> useMemo (JString ''abc'') ''zzz'' = (JObject [], [])"
proof -
  let ?doc = "JObject [(''a'', JString ''x zzz''), (''b'', JString ''y'')]"
  have t: "toLowerCase (trim ''zzz'') \<noteq> []" by code_simp
  have n: "\<not> truthy JNull" by simp
  have d: "truthy ?doc" by simp
  have a: "useMemo JNull ''zzz'' = (JNull, [])"
    by (rule useMemo_document_guard [OF t, THEN conjunct2, THEN mp, OF n])
  note b = useMemo_document_guard [OF t, THEN conjunct1, THEN mp, OF d]
  have e: "useMemo ?doc ''zzz'' = (JObject [(''a'', JString ''x zzz'')], [[''a'']])"
    by code_simp
  have f: "useMemo (JString ''abc'') ''zzz'' = (JObject [], [])"
    by code_simp
  show ?thesis by (rule conjI [OF t conjI [OF a conjI [OF b conjI [OF e f]]]])
qed

text \<open>For the absent document the memo returns \<^verbatim>\<open>null\<close>, not the empty object.\<close>

theorem null_document_returned:
  "toLowerCase (trim ''zzz'') = ''zzz''
   \<and> useMemo JNull ''zzz'' = (JNull, [])
   \<and> fst (useMemo JNull ''zzz'') \<noteq> JObject []"
  by code_simp

section \<open>The order of the match list\<close>

lemma forIn_matches:
  "snd (snd (forIn es t p (r, h, ms))) = ms @ concat (map (entryMatches t p) es)"
  by (simp add: forIn_eq)

text \<open>
  Claim C5, as the code has it.  For an entry whose key matches, the recursive
  call on the entry's value is made like for any other entry and appends the
  paths of all matches inside the value, in depth-first order; the path of the
  entry itself is appended right after them, before the paths of the entries
  that follow.
\<close>

theorem key_match_entry_rescanned:
  assumes "includesStr (toLowerCase key) t"
  shows "snd (filterTree val t (p @ [key]) ms) = ms @ dfsMatches val t (p @ [key])
       \<and> snd (snd (forIn ((key, val) # rest) t p (r, h, ms)))
         = ms @ dfsMatches val t (p @ [key]) @ [p @ [key]] @ concat (map (entryMatches t p) rest)"
proof
  show "snd (filterTree val t (p @ [key]) ms) = ms @ dfsMatches val t (p @ [key])"
    by (subst filterTree_eq) simp
  show "snd (snd (forIn ((key, val) # rest) t p (r, h, ms)))
         = ms @ dfsMatches val t (p @ [key]) @ [p @ [key]] @ concat (map (entryMatches t p) rest)"
    unfolding forIn_matches using assms by (simp add: entryMatches_pair)
qed

theorem key_match_entry_rescanned_witness:
  "includesStr (toLowerCase ''match_key'') ''match''
   \<and> snd (filterTree (JObject [(''a'', JString ''match'')]) ''match'' [''match_key''] [])
     = [[''match_key'', ''a'']]
   \<and> snd (snd (forIn [(''match_key'', JObject [(''a'', JString ''match'')])] ''match'' [] (JObject [], False, [])))
     = [[''match_key'', ''a''], [''match_key'']]"
proof -
  have k: "includesStr (toLowerCase ''match_key'') ''match''" by code_simp
  have d: "dfsMatches (JObject [(''a'', JString ''match'')]) ''match'' [''match_key'']
           = [[''match_key'', ''a'']]"
    by (simp add: dfsMatches_entries entryMatches_pair toLowerCase_def lowerChar_def)
  from key_match_entry_rescanned [OF k, of "JObject [(''a'', JString ''match'')]" "[]" "[]" "[]" "JObject []" False]
  have "snd (filterTree (JObject [(''a'', JString ''match'')]) ''match'' [''match_key''] [])
     = [[''match_key'', ''a'']]
   \<and> snd (snd (forIn [(''match_key'', JObject [(''a'', JString ''match'')])] ''match'' [] (JObject [], False, [])))
     = [[''match_key'', ''a''], [''match_key'']]"
    by (simp only: append_Nil append_Cons append_Nil2 d list.map concat.simps)
  with k show ?thesis by (rule conjI)
qed

text \<open>The recursive call under a matching key does append a path.\<close>

theorem key_match_value_scanned:
  "includesStr (toLowerCase ''match_key'') ''match''
   \<and> snd (filterTree (JObject [(''a'', JString ''match'')]) ''match'' [''match_key''] []) = [[''match_key'', ''a'']]
   \<and> snd (filterTree (JObject [(''match_key'', JObject [(''a'', JString ''match'')])]) ''match'' [] [])
     = [[''match_key'', ''a''], [''match_key'']]"
  by code_simp

text \<open>
  Claim C6.  The match list that the filter returns is the list it was given
  followed by the matches of the value in depth-first order, each container in
  its iteration order and the matches inside an entry before the match of the
  entry's key (\<open>dfsMatches\<close>); the memo returns that list for the whole
  document, and the empty list when the term is empty.
\<close>

theorem match_list_depth_first:
  "snd (filterTree v t p ms) = ms @ dfsMatches v t p
   \<and> snd (useMemo doc s)
     = (if toLowerCase (trim s) = [] then [] else dfsMatches doc (toLowerCase (trim s)) [])"
proof
  show "snd (filterTree v t p ms) = ms @ dfsMatches v t p"
    by (subst filterTree_eq) simp
  have "dfsMatches doc u [] = []" if "\<not> truthy doc" "u \<noteq> []" for u
    using that by (cases doc) (simp_all add: dfsMatches_entries toLowerCase_def)
  then show "snd (useMemo doc s)
     = (if toLowerCase (trim s) = [] then [] else dfsMatches doc (toLowerCase (trim s)) [])"
    by (simp add: useMemo_cases del: filterTree.simps)
qed

section \<open>Sparse sequences\<close>

lemma getProp_array_index: "getProp (JArray xs) (showNat i) = elemAt xs i"
  by (simp add: arrayIndex_showNat)

text \<open>
  Claim C10.  When the filter keeps a sequence, the result is a sequence no
  longer than the original in which slot \<open>i\<close> holds what the loop kept of the
  original's slot \<open>i\<close> (the element itself under a matching index key, else
  its filtered value) and is a hole when the element was pruned or was a hole
  already: elements keep their indices, nothing is shifted down.
\<close>

theorem filtered_array_sparse:
  assumes "filterTree (JArray xs) t p ms = (JArray ys, ms')"
  shows "length ys \<le> length xs
       \<and> elemAt ys i = (case elemAt xs i of None \<Rightarrow> None | Some v \<Rightarrow> keptValue t (showNat i) v)"
proof
  from filterTree_kind [of "JArray xs" t p ms] assms
  show "length ys \<le> length xs" by (auto simp del: filterTree.simps)
  have d: "distinct (map fst (ownEntries (JArray xs)))"
    by (simp add: arrayEntries_distinct)
  have "getProp (fst (filterTree (JArray xs) t p ms)) (showNat i)
        = (case getProp (JArray xs) (showNat i) of None \<Rightarrow> None | Some c \<Rightarrow> keptValue t (showNat i) c)"
    using getProp_filterTree [OF d, of t p ms "showNat i"]
    by (simp only: showNat_not_proto if_False)
  then show "elemAt ys i = (case elemAt xs i of None \<Rightarrow> None | Some v \<Rightarrow> keptValue t (showNat i) v)"
    unfolding assms fst_conv getProp_array_index .
qed

theorem filtered_array_sparse_witness:
  "filterTree (JArray [Some (JString ''no''), Some (JString ''Match''), Some (JString ''nope'')]) ''match'' [] []
     = (JArray [None, Some (JString ''Match'')], [[''1'']])
   \<and> length [None, Some (JString ''Match'')]
       \<le> length [Some (JString ''no''), Some (JString ''Match''), Some (JString ''nope'')]
   \<and> elemAt [None, Some (JString ''Match'')] 1
     = (case elemAt [Some (JString ''no''), Some (JString ''Match''), Some (JString ''nope'')] 1 of
          None \<Rightarrow> None | Some v \<Rightarrow> keptValue ''match'' (showNat 1) v)"
proof -
  have r: "filterTree (JArray [Some (JString ''no''), Some (JString ''Match''), Some (JString ''nope'')]) ''match'' [] []
     = (JArray [None, Some (JString ''Match'')], [[''1'']])"
    by code_simp
  show ?thesis by (rule conjI [OF r filtered_array_sparse [OF r]])
qed

section \<open>Initial expansion of a node\<close>

text \<open>
  Claim C8.  While a search term is set, a node is expanded exactly when the
  dot-joined key path it is asked about is a prefix, as a string, of the
  dot-joined form of some recorded match path.  With the match path
  \<^verbatim>\<open>["a", "bc"]\<close> recorded, the node at \<^verbatim>\<open>["a", "b"]\<close> is expanded.
\<close>

theorem expand_iff_joined_prefix:
  assumes "searchTerm \<noteq> []"
  shows "shouldExpandNodeInitially searchTerm matchedPaths keyPath
           = (\<exists>M\<in>set matchedPaths. prefix (join (map itemString keyPath)) (join M))
       \<and> shouldExpandNodeInitially searchTerm [[''a'', ''bc'']] [Name ''a'', Name ''b'']"
proof
  show "shouldExpandNodeInitially searchTerm matchedPaths keyPath
           = (\<exists>M\<in>set matchedPaths. prefix (join (map itemString keyPath)) (join M))"
    using assms
    by (simp add: shouldExpandNodeInitially_def list_ex_iff startsWith_prefix)
  show "shouldExpandNodeInitially searchTerm [[''a'', ''bc'']] [Name ''a'', Name ''b'']"
    using assms by (simp add: shouldExpandNodeInitially_def)
qed

theorem expand_iff_joined_prefix_witness:
  "''b'' \<noteq> []
   \<and> shouldExpandNodeInitially ''b'' [[''x''], [''a'', ''bc'']] [Name ''a'', Index 1]
        = (\<exists>M\<in>set [[''x''], [''a'', ''bc'']]. prefix (join (map itemString [Name ''a'', Index 1])) (join M))
   \<and> shouldExpandNodeInitially ''b'' [[''a'', ''bc'']] [Name ''a'', Name ''b'']"
proof -
  have n: "''b'' \<noteq> []" by simp
  show ?thesis by (rule conjI [OF n expand_iff_joined_prefix [OF n]])
qed

section \<open>The empty term\<close>

text \<open>
  Claim C9.  With the empty search term the memo returns the document it was
  given, whatever it is, and an empty match list; the filter is not run.
\<close>

theorem useMemo_empty_term:
  "useMemo doc [] = (doc, [])"
  by (simp add: useMemo_def trim_def toLowerCase_def)

end
